theory Spec2Isabelle
  imports Main "HOL-Library.Sublist"
begin

section \<open>Values of the host language\<close>

text \<open>
  A value that may be \<^verbatim>\<open>undefined\<close>. The type parameter ranges over every other value;
  HOL equality on it stands for the strict comparison \<^verbatim>\<open>===\<close> (for an object: identity of
  the reference). A value that is not identical to itself (NaN) is told apart by a
  predicate where the comparison is the matter.
\<close>

datatype 'a js = Undefined | Defined 'a

text \<open>What a call can throw: the runtime's TypeError, or a value thrown by user code.\<close>

datatype exn = TypeError | Thrown string

section \<open>The stream library's Subject\<close>

text \<open>
  Modelled from the spec: the observable-stream library (Subject, BehaviorSubject, the
  operators, subscriptions) is an external collaborator of the repository. A Subject holds
  its observers in subscription order; \<^verbatim>\<open>next\<close> calls each of them in that order; subscribing
  to a stopped Subject yields a closed subscription and attaches nothing; unsubscribing
  detaches the observer. Observers are named by identifiers of type \<open>'o\<close>, and a call
  \<^verbatim>\<open>observer.next(v)\<close> is recorded as the pair \<open>(observer, v)\<close> at the end of a log.
\<close>

record 'o Subject =
  observers :: "'o list"
  isStopped :: bool

definition Subject_new :: "'o Subject" where
  "Subject_new = \<lparr>observers = [], isStopped = False\<rparr>"

text \<open>The subject after the call, and whether the returned subscription is closed.\<close>

definition Subject_subscribe :: "'o \<Rightarrow> 'o Subject \<Rightarrow> 'o Subject \<times> bool" where
  "Subject_subscribe obs subj =
     (if isStopped subj then (subj, True)
      else (subj\<lparr>observers := observers subj @ [obs]\<rparr>, False))"

definition Subject_next :: "'o Subject \<Rightarrow> 'v \<Rightarrow> ('o \<times> 'v) list \<Rightarrow> ('o \<times> 'v) list" where
  "Subject_next subj v log =
     (if isStopped subj then log else log @ map (\<lambda>obs. (obs, v)) (observers subj))"

definition Subject_unsubscribe :: "'o \<Rightarrow> 'o Subject \<Rightarrow> 'o Subject" where
  "Subject_unsubscribe obs subj = subj\<lparr>observers := remove1 obs (observers subj)\<rparr>"

section \<open>StateObservable\<close>

text \<open>
  The class of \<^verbatim>\<open>index.ts\<close>, lines 12 to 34: the field \<^verbatim>\<open>value\<close>, the field
  \<^verbatim>\<open>__notifier\<close>, and the log of the calls made to the observers so far (oldest first).
\<close>

record ('o, 's) StateObservable =
  "value" :: 's
  notifier :: "'o Subject"
  delivered :: "('o \<times> 's) list"

text \<open>
  The constructor: \<^verbatim>\<open>this.value = initialState; this.__notifier = new Subject()\<close>. The
  log of earlier calls is handed in.
\<close>

definition StateObservable_new :: "'s \<Rightarrow> ('o \<times> 's) list \<Rightarrow> ('o, 's) StateObservable" where
  "StateObservable_new initialState log =
     \<lparr>value = initialState, notifier = Subject_new, delivered = log\<rparr>"

text \<open>
  The subscribe function given to \<^verbatim>\<open>super\<close> (lines 17 to 23): attach the subscriber to
  the notifier, then, when the subscription is open, call the subscriber with the current
  value. The result is the subscription's \<^verbatim>\<open>closed\<close> flag and the object after the call.
\<close>

definition subscribe :: "'o \<Rightarrow> ('o, 's) StateObservable \<Rightarrow> bool \<times> ('o, 's) StateObservable" where
  "subscribe subscriber so =
     (let (n, closed) = Subject_subscribe subscriber (notifier so);
          so1 = so\<lparr>notifier := n\<rparr>
      in if \<not> closed
         then (closed, so1\<lparr>delivered := delivered so1 @ [(subscriber, value so1)]\<rparr>)
         else (closed, so1))"

text \<open>
  The callback subscribed to the source channel (lines 27 to 32), run for each value that
  arrives from \<^verbatim>\<open>stateSubject\<close>.
\<close>

definition source_next :: "'s \<Rightarrow> ('o, 's) StateObservable \<Rightarrow> ('o, 's) StateObservable" where
  "source_next v so =
     (if v \<noteq> value so
      then (so\<lparr>value := v\<rparr>)\<lparr>delivered := Subject_next (notifier so) v (delivered so)\<rparr>
      else so)"

text \<open>Cancelling a subscription obtained from \<open>subscribe\<close>.\<close>

definition unsubscribe :: "'o \<Rightarrow> ('o, 's) StateObservable \<Rightarrow> ('o, 's) StateObservable" where
  "unsubscribe subscriber so = so\<lparr>notifier := Subject_unsubscribe subscriber (notifier so)\<rparr>"

text \<open>
  The life of an instance: what its users can do to it after the constructor has run.
\<close>

datatype ('o, 's) so_op = Subscribe 'o | Arrive 's | Unsubscribe 'o

fun so_step :: "('o, 's) so_op \<Rightarrow> ('o, 's) StateObservable \<Rightarrow> ('o, 's) StateObservable" where
  "so_step (Subscribe obs) so = snd (subscribe obs so)"
| "so_step (Arrive v) so = source_next v so"
| "so_step (Unsubscribe obs) so = unsubscribe obs so"

fun so_run :: "('o, 's) so_op list \<Rightarrow> ('o, 's) StateObservable \<Rightarrow> ('o, 's) StateObservable" where
  "so_run [] so = so"
| "so_run (x # xs) so = so_run xs (so_step x so)"

text \<open>The values an observer has been called with, oldest first.\<close>

definition received :: "'o \<Rightarrow> ('o, 's) StateObservable \<Rightarrow> 's list" where
  "received obs so = map snd (filter (\<lambda>c. fst c = obs) (delivered so))"

text \<open>
  The comparison of line 28 on values that include one that is not identical to itself:
  \<^verbatim>\<open>v !== w\<close> holds when the two differ, and also when \<open>v\<close> is such a value (NaN
  is the one such value of the language; \<open>nan\<close> tells which values of \<open>'s\<close> they
  are). \<open>source_next_strict\<close> is the callback of lines 27 to 32 with this comparison;
  \<open>source_next\<close> is the same callback where every value is identical to itself.
\<close>

definition strict_differs :: "('s \<Rightarrow> bool) \<Rightarrow> 's \<Rightarrow> 's \<Rightarrow> bool" where
  "strict_differs nan v w = (nan v \<or> v \<noteq> w)"

definition source_next_strict ::
  "('s \<Rightarrow> bool) \<Rightarrow> 's \<Rightarrow> ('o, 's) StateObservable \<Rightarrow> ('o, 's) StateObservable" where
  "source_next_strict nan v so =
     (if strict_differs nan v (value so)
      then (so\<lparr>value := v\<rparr>)\<lparr>delivered := Subject_next (notifier so) v (delivered so)\<rparr>
      else so)"

fun so_step_strict ::
  "('s \<Rightarrow> bool) \<Rightarrow> ('o, 's) so_op \<Rightarrow> ('o, 's) StateObservable \<Rightarrow> ('o, 's) StateObservable" where
  "so_step_strict nan (Subscribe obs) so = snd (subscribe obs so)"
| "so_step_strict nan (Arrive v) so = source_next_strict nan v so"
| "so_step_strict nan (Unsubscribe obs) so = unsubscribe obs so"

fun so_run_strict ::
  "('s \<Rightarrow> bool) \<Rightarrow> ('o, 's) so_op list \<Rightarrow> ('o, 's) StateObservable \<Rightarrow> ('o, 's) StateObservable" where
  "so_run_strict nan [] so = so"
| "so_run_strict nan (x # xs) so = so_run_strict nan xs (so_step_strict nan x so)"

text \<open>Numbers of the host language, for the examples: NaN, or an integer.\<close>

datatype number = NaN | Num int

definition is_NaN :: "number \<Rightarrow> bool" where
  "is_NaN n = (n = NaN)"

section \<open>The action filter\<close>

text \<open>
  \<^verbatim>\<open>type Action = {type?: string; [key: string]: any}\<close>: an object whose type tag may be
  missing. The other fields are the record's extension, so that the filter below applies
  to every \<^verbatim>\<open>T extends Action\<close>.
\<close>

record Action =
  type :: "string js"

text \<open>The loop of lines 203 to 207, from index \<open>i\<close>.\<close>

function ofType_loop :: "string js \<Rightarrow> string list \<Rightarrow> nat \<Rightarrow> nat \<Rightarrow> bool" where
  "ofType_loop ty keys i len =
     (if i < len
      then (if ty = Defined (keys ! i) then True else ofType_loop ty keys (i + 1) len)
      else False)"
  by pat_completeness auto
termination
  by (relation "measure (\<lambda>(ty, keys, i, len). len - i)") auto

declare ofType_loop.simps [simp del]

text \<open>
  The predicate given to \<^verbatim>\<open>filter\<close> (lines 195 to 210). An item of the stream is an object
  or is absent; an absent item is falsy.
\<close>

definition ofType_predicate :: "string list \<Rightarrow> 'm Action_scheme js \<Rightarrow> bool" where
  "ofType_predicate keys action =
     (case action of
        Undefined \<Rightarrow> False
      | Defined a \<Rightarrow>
          (let ty = type a; len = length keys
           in if len = 1 then ty = Defined (keys ! 0) else ofType_loop ty keys 0 len))"

text \<open>
  \<^verbatim>\<open>source.pipe(filter(...))\<close>. A stream is the list of the items it emits, in order.
  Modelled from the spec: the library's \<^verbatim>\<open>filter\<close> operator, which passes on the items
  that satisfy the predicate, untouched and in their order.
\<close>

definition ofType :: "string list \<Rightarrow> 'm Action_scheme js list \<Rightarrow> 'm Action_scheme js list" where
  "ofType keys source = filter (ofType_predicate keys) source"

section \<open>Options\<close>

text \<open>
  An options object: each property is absent (\<open>None\<close>) or present with a value that may
  be \<^verbatim>\<open>undefined\<close>.
\<close>

record 's Options =
  immer :: "bool js option"
  init :: "('s js \<Rightarrow> 's js) js option"

definition defaultOptions :: "'s Options" where
  "defaultOptions = \<lparr>immer = Some (Defined True), init = Some Undefined\<rparr>"

text \<open>The default of the parameter \<^verbatim>\<open>options\<close>: the empty object.\<close>

definition no_options :: "'s Options" where
  "no_options = \<lparr>immer = None, init = None\<rparr>"

text \<open>Reading a property: an absent one reads as \<^verbatim>\<open>undefined\<close>.\<close>

definition read :: "'a js option \<Rightarrow> 'a js" where
  "read p = (case p of None \<Rightarrow> Undefined | Some v \<Rightarrow> v)"

text \<open>
  \<^verbatim>\<open>Object.assign(target, source)\<close> writes every property that \<open>source\<close> has into
  \<open>target\<close> and returns \<open>target\<close>: the result is the target object after the call.
\<close>

definition assign_property :: "'a option \<Rightarrow> 'a option \<Rightarrow> 'a option" where
  "assign_property target source = (case source of None \<Rightarrow> target | Some v \<Rightarrow> Some v)"

definition Object_assign :: "'s Options \<Rightarrow> 's Options \<Rightarrow> 's Options" where
  "Object_assign target source =
     \<lparr>immer = assign_property (immer target) (immer source),
      init = assign_property (init target) (init source)\<rparr>"

text \<open>
  Line 113, \<^verbatim>\<open>const opts = Object.assign(defaultOptions, options)\<close>, with the module's
  variable \<^verbatim>\<open>defaultOptions\<close> passed in and out: the result is \<open>opts\<close> and the content of
  \<^verbatim>\<open>defaultOptions\<close> after the call. Both are the one object that was assigned to.
\<close>

definition useEpics_opts :: "'s Options \<Rightarrow> 's Options \<Rightarrow> 's Options \<times> 's Options" where
  "useEpics_opts defaults options =
     (let opts = Object_assign defaults options in (opts, opts))"

text \<open>Truthiness of a boolean property and of a function property.\<close>

definition truthy_flag :: "bool js \<Rightarrow> bool" where
  "truthy_flag b = (b = Defined True)"

definition draft_mode :: "'s Options \<Rightarrow> bool" where
  "draft_mode opts = truthy_flag (read (immer opts))"

section \<open>Actions and the reducer\<close>

text \<open>
  \<^verbatim>\<open>ActionUnion\<close>: an action of the container, \<^verbatim>\<open>{type, payload}\<close>. A handler is a
  function of its argument list that returns the next state, returns \<^verbatim>\<open>undefined\<close>, or
  throws. \<^verbatim>\<open>createActions(state)\<close> is the record of the handlers, by name.
\<close>

record 'p ActionUnion = Action +
  payload :: "'p js"

type_synonym ('s, 'p) handler = "'p js list \<Rightarrow> exn + 's js"

type_synonym ('s, 'p) Actions = "'s js \<Rightarrow> string \<Rightarrow> ('s, 'p) handler option"

type_synonym ('s, 'p) reducer = "'s js \<Rightarrow> 'p ActionUnion \<Rightarrow> exn + 's js"

text \<open>A property key: \<^verbatim>\<open>undefined\<close> used as a key is the string "undefined".\<close>

definition property_key :: "string js \<Rightarrow> string" where
  "property_key k = (case k of Undefined \<Rightarrow> ''undefined'' | Defined s \<Rightarrow> s)"

text \<open>
  \<^verbatim>\<open>update\<close> (lines 116 and 117): look the handler up in \<^verbatim>\<open>createActions(state)\<close> and
  call it with the payload as its only argument. Calling a missing handler is a TypeError.
\<close>

definition update :: "('s, 'p) Actions \<Rightarrow> ('s, 'p) reducer" where
  "update createActions state action =
     (case createActions state (property_key (type action)) of
        None \<Rightarrow> Inl TypeError
      | Some h \<Rightarrow> h [payload action])"

text \<open>
  \<^verbatim>\<open>reducer\<close> (line 118). The structural-update helper (\<^verbatim>\<open>require("immer").default\<close>) is
  an external library: it is the parameter \<open>produce\<close>.
\<close>

definition reducer ::
  "'s Options \<Rightarrow> (('s, 'p) reducer \<Rightarrow> ('s, 'p) reducer) \<Rightarrow> ('s, 'p) Actions \<Rightarrow> ('s, 'p) reducer" where
  "reducer opts produce createActions =
     (if \<not> truthy_flag (read (immer opts)) then update createActions
      else produce (update createActions))"

section \<open>The container\<close>

text \<open>
  An epic is a function of the action stream, the state observable and the callbacks that
  returns a stream; the container subscribes to that stream (line 143) and unsubscribes
  from it in the cleanup (line 145). Of an epic the model keeps which of the two sources
  its stream is built on: subscribing to the stream attaches one observer to each of them,
  and unsubscribing detaches these observers.
\<close>

record Epic =
  on_action :: bool
  on_state :: bool

text \<open>
  What one run of the mount effect creates. \<open>behavior_value\<close> and \<open>distinct_key\<close>
  are the state bus \<^verbatim>\<open>stateRef$.current\<close>: the value held by the BehaviorSubject, and the
  last value that distinctUntilChanged let through to its one subscriber, the
  StateObservable. \<open>action_bus\<close> is \<^verbatim>\<open>actionRef$.current\<close>; \<open>action_delivered\<close> is
  the log of the calls made to its observers, each with the action and with what
  \<^verbatim>\<open>state$.value\<close> held at the moment of the call. \<open>effectSubscriptions\<close> names the
  subscriptions of line 143 by the observers they attached.
\<close>

record ('s, 'p) Activation =
  behavior_value :: "'s js"
  distinct_key :: "'s js option"
  state_obs :: "(nat, 's js) StateObservable"
  action_bus :: "nat Subject"
  action_delivered :: "(nat \<times> 'p ActionUnion \<times> 's js) list"
  effectSubscriptions :: "nat list"

text \<open>
  Modelled from the spec: the state bus is the library's BehaviorSubject piped through
  \<^verbatim>\<open>observeOn(queueScheduler)\<close> and \<^verbatim>\<open>distinctUntilChanged()\<close> (lines 127 to 130); these
  are external. The spec has the publication pass push the state into the state bus, which
  dedups on the way to the StateObservable. A push stores the value in the BehaviorSubject
  and hands it to the subscriber: the queue scheduler runs the delivery at once (the
  passes of the host are not run from inside one of its tasks), distinctUntilChanged drops
  a value equal to the last one it passed, and what it passes arrives at the callback of
  the StateObservable.
\<close>

definition distinct_next :: "'s js \<Rightarrow> ('s, 'p) Activation \<Rightarrow> ('s, 'p) Activation" where
  "distinct_next v a =
     (if distinct_key a = Some v then a
      else a\<lparr>distinct_key := Some v, state_obs := source_next v (state_obs a)\<rparr>)"

definition stateRef_next :: "'s js \<Rightarrow> ('s, 'p) Activation \<Rightarrow> ('s, 'p) Activation" where
  "stateRef_next v a = distinct_next v (a\<lparr>behavior_value := v\<rparr>)"

text \<open>\<^verbatim>\<open>actionRef$.current.next(action)\<close>: a plain Subject.\<close>

definition actionRef_next :: "'p ActionUnion \<Rightarrow> ('s, 'p) Activation \<Rightarrow> ('s, 'p) Activation" where
  "actionRef_next action a =
     a\<lparr>action_delivered :=
         Subject_next (action_bus a) (action, value (state_obs a)) (action_delivered a)\<rparr>"

text \<open>Lines 124 to 126.\<close>

definition initializedState :: "'s Options \<Rightarrow> 's js \<Rightarrow> 's js" where
  "initializedState options seed =
     (case read (init options) of Undefined \<Rightarrow> seed | Defined f \<Rightarrow> f seed)"

text \<open>Subscribing to the stream of one epic, as observer \<open>i\<close>.\<close>

definition subscribe_epic :: "nat \<Rightarrow> Epic \<Rightarrow> ('s, 'p) Activation \<Rightarrow> ('s, 'p) Activation" where
  "subscribe_epic i epic a =
     (let a1 = (if on_action epic
                then a\<lparr>action_bus := fst (Subject_subscribe i (action_bus a))\<rparr> else a);
          a2 = (if on_state epic
                then a1\<lparr>state_obs := snd (subscribe i (state_obs a1))\<rparr> else a1)
      in a2\<lparr>effectSubscriptions := effectSubscriptions a2 @ [i]\<rparr>)"

fun subscribe_epics :: "nat \<Rightarrow> Epic list \<Rightarrow> ('s, 'p) Activation \<Rightarrow> ('s, 'p) Activation" where
  "subscribe_epics i [] a = a"
| "subscribe_epics i (e # es) a = subscribe_epics (Suc i) es (subscribe_epic i e a)"

text \<open>
  The body of the mount effect (lines 124 to 143): the state bus, the action bus, the
  StateObservable (whose constructor subscribes to the state bus and so is handed the
  value the BehaviorSubject holds), then the epics. The observers are numbered from
  \<open>first\<close>; the two logs are handed in.
\<close>

definition new_activation ::
  "'s Options \<Rightarrow> 's js \<Rightarrow> Epic list \<Rightarrow> nat \<Rightarrow> (nat \<times> 's js) list \<Rightarrow>
   (nat \<times> 'p ActionUnion \<times> 's js) list \<Rightarrow> ('s, 'p) Activation" where
  "new_activation options seed epics first state_log action_log =
     (let s0 = initializedState options seed;
          a0 = \<lparr>behavior_value = s0, distinct_key = None,
                state_obs = StateObservable_new s0 state_log,
                action_bus = Subject_new, action_delivered = action_log,
                effectSubscriptions = []\<rparr>
      in subscribe_epics first epics (distinct_next s0 a0))"

text \<open>The cleanup of the mount effect (line 145).\<close>

definition unsubscribe_epic :: "nat \<Rightarrow> ('s, 'p) Activation \<Rightarrow> ('s, 'p) Activation" where
  "unsubscribe_epic i a =
     a\<lparr>action_bus := Subject_unsubscribe i (action_bus a),
       state_obs := unsubscribe i (state_obs a)\<rparr>"

definition cleanup_activation :: "('s, 'p) Activation \<Rightarrow> ('s, 'p) Activation" where
  "cleanup_activation a = fold unsubscribe_epic (effectSubscriptions a) a"

text \<open>
  The hook's cells for one component instance. \<open>state\<close> and \<open>lastAction\<close> are the
  values of \<^verbatim>\<open>useReducer\<close> and \<^verbatim>\<open>useState\<close> as of the last render; \<open>dispatched\<close> and
  \<open>lastAction_queue\<close> hold the calls of \<^verbatim>\<open>dispatch\<close> and \<^verbatim>\<open>setLastAction\<close> that the next
  render will apply. \<open>closure_state\<close> is the \<^verbatim>\<open>state\<close> that the memoised callbacks hold:
  the dependency list of their \<^verbatim>\<open>useMemo\<close> is the list of action names (line 169), so they
  are built by the first render and keep its \<^verbatim>\<open>state\<close>. \<open>activation\<close> is what the two
  refs hold (\<open>None\<close>: both are null). \<open>next_observer\<close> numbers the observers.
\<close>

record ('s, 'p) Container =
  state :: "'s js"
  lastAction :: "'p ActionUnion option"
  closure_state :: "'s js"
  dispatched :: "'p ActionUnion list"
  lastAction_queue :: "'p ActionUnion option list"
  activation :: "('s, 'p) Activation option"
  next_observer :: nat

text \<open>The arguments of \<^verbatim>\<open>useEpics\<close>, with \<open>opts\<close> as line 113 computed it.\<close>

record ('s, 'p) Props =
  createActions :: "('s, 'p) Actions"
  initialState :: "'s js"
  opts :: "'s Options"
  produce :: "('s, 'p) reducer \<Rightarrow> ('s, 'p) reducer"

definition current_reducer :: "('s, 'p) Props \<Rightarrow> ('s, 'p) reducer" where
  "current_reducer P = reducer (opts P) (produce P) (createActions P)"

text \<open>The first render: \<^verbatim>\<open>useReducer(reducer, initialState, opts.init)\<close>, no effect yet.\<close>

definition first_render :: "('s, 'p) Props \<Rightarrow> ('s, 'p) Container" where
  "first_render P =
     (let s0 = (case read (init (opts P)) of
                  Undefined \<Rightarrow> initialState P | Defined f \<Rightarrow> f (initialState P))
      in \<lparr>state = s0, lastAction = None, closure_state = s0, dispatched = [],
          lastAction_queue = [], activation = None, next_observer = 0\<rparr>)"

text \<open>The mount effect and its cleanup, on the container.\<close>

definition mount :: "('s, 'p) Props \<Rightarrow> Epic list \<Rightarrow> ('s, 'p) Container \<Rightarrow> ('s, 'p) Container" where
  "mount P epics c =
     (let logs = (case activation c of
                    None \<Rightarrow> ([], [])
                  | Some old \<Rightarrow> (delivered (state_obs old), action_delivered old))
      in c\<lparr>activation :=
             Some (new_activation (opts P) (initialState P) epics (next_observer c)
                     (fst logs) (snd logs)),
           next_observer := next_observer c + length epics\<rparr>)"

definition cleanup :: "('s, 'p) Container \<Rightarrow> ('s, 'p) Container" where
  "cleanup c =
     (case activation c of
        None \<Rightarrow> c
      | Some a \<Rightarrow> c\<lparr>activation := Some (cleanup_activation a)\<rparr>)"

text \<open>\<^verbatim>\<open>dispatch\<close> and \<^verbatim>\<open>setLastAction\<close>: queued for the next render.\<close>

definition dispatch :: "'p ActionUnion \<Rightarrow> ('s, 'p) Container \<Rightarrow> ('s, 'p) Container" where
  "dispatch action c = c\<lparr>dispatched := dispatched c @ [action]\<rparr>"

definition setLastAction ::
  "'p ActionUnion option \<Rightarrow> ('s, 'p) Container \<Rightarrow> ('s, 'p) Container" where
  "setLastAction v c = c\<lparr>lastAction_queue := lastAction_queue c @ [v]\<rparr>"

text \<open>
  \<^verbatim>\<open>dispatchWithEpic\<close> (lines 156 to 163), called with the argument list of the callback:
  the parameter \<^verbatim>\<open>[payload]\<close> takes the first element of that list (\<^verbatim>\<open>undefined\<close> when
  there is none). The result is the exception, if one is thrown, and the container as the
  call leaves it.
\<close>

definition first_argument :: "'p js list \<Rightarrow> 'p js" where
  "first_argument args = (case args of [] \<Rightarrow> Undefined | p # rest \<Rightarrow> p)"

definition dispatchWithEpic ::
  "('s, 'p) reducer \<Rightarrow> string \<Rightarrow> 'p js list \<Rightarrow> ('s, 'p) Container \<Rightarrow>
   exn option \<times> ('s, 'p) Container" where
  "dispatchWithEpic R name args c =
     (let action = \<lparr>type = Defined name, payload = first_argument args\<rparr>
      in case R (closure_state c) action of
           Inl e \<Rightarrow> (Some e, c)
         | Inr nextState \<Rightarrow>
             (None, setLastAction (Some action)
                      (if nextState \<noteq> Undefined then dispatch action c else c)))"

text \<open>
  \<^verbatim>\<open>wrappedActions\<close> (lines 148 to 170): one callback for each key of
  \<^verbatim>\<open>createActions(initialState)\<close>. Calling a name that is not a key is a TypeError.
\<close>

definition wrappedActions ::
  "('s, 'p) Props \<Rightarrow> string \<Rightarrow> 'p js list \<Rightarrow> ('s, 'p) Container \<Rightarrow>
   exn option \<times> ('s, 'p) Container" where
  "wrappedActions P name args c =
     (case createActions P (initialState P) name of
        None \<Rightarrow> (Some TypeError, c)
      | Some h \<Rightarrow> dispatchWithEpic (current_reducer P) name args c)"

text \<open>
  A render: the host reduces the dispatched actions, oldest first, from the current state,
  and takes the last value given to \<^verbatim>\<open>setLastAction\<close>. A reducer that throws makes the
  render fail.
\<close>

fun reduce_all :: "('s, 'p) reducer \<Rightarrow> 'p ActionUnion list \<Rightarrow> 's js \<Rightarrow> exn + 's js" where
  "reduce_all R [] s = Inr s"
| "reduce_all R (x # xs) s = (case R s x of Inl e \<Rightarrow> Inl e | Inr s' \<Rightarrow> reduce_all R xs s')"

definition render :: "('s, 'p) reducer \<Rightarrow> ('s, 'p) Container \<Rightarrow> exn + ('s, 'p) Container" where
  "render R c =
     (case reduce_all R (dispatched c) (state c) of
        Inl e \<Rightarrow> Inl e
      | Inr s \<Rightarrow>
          Inr (c\<lparr>state := s, dispatched := [],
                 lastAction := (if lastAction_queue c = [] then lastAction c
                                else last (lastAction_queue c)),
                 lastAction_queue := []\<rparr>))"

text \<open>
  The deferred publication pass (lines 172 to 178), run by the host after a render that
  changed \<^verbatim>\<open>lastAction\<close>.
\<close>

definition publication :: "('s, 'p) Container \<Rightarrow> ('s, 'p) Container" where
  "publication c =
     (case lastAction c of
        None \<Rightarrow> c
      | Some action \<Rightarrow>
          (case activation c of
             None \<Rightarrow> c
           | Some a \<Rightarrow>
               setLastAction None
                 (c\<lparr>activation := Some (actionRef_next action (stateRef_next (state c) a))\<rparr>)))"

text \<open>
  The pass in its two parts: the two pushes (lines 174 and 175), during which the observers
  run, and the clearing of the marker (line 176). The test of line 173 is made once; what
  it reads is not changed by a callback, so each part repeats it.
\<close>

definition publication_push :: "('s, 'p) Container \<Rightarrow> ('s, 'p) Container" where
  "publication_push c =
     (case lastAction c of
        None \<Rightarrow> c
      | Some action \<Rightarrow>
          (case activation c of
             None \<Rightarrow> c
           | Some a \<Rightarrow>
               c\<lparr>activation := Some (actionRef_next action (stateRef_next (state c) a))\<rparr>))"

definition publication_clear :: "('s, 'p) Container \<Rightarrow> ('s, 'p) Container" where
  "publication_clear c =
     (case lastAction c of
        None \<Rightarrow> c
      | Some action \<Rightarrow>
          (case activation c of None \<Rightarrow> c | Some a \<Rightarrow> setLastAction None c))"

text \<open>
  What can happen to a container after its first render: the host runs the mount effect
  (at mount, and again with the new list when the epic list changes), runs its cleanup
  (at unmount or before a new mount), renders, and runs the publication pass; a callback
  is invoked; a value is pushed on one of the two buses.
\<close>

datatype ('s, 'p) event =
  Mount "Epic list" | Cleanup | Invoke string "'p js list" | Render | Publication
  | Push_state "'s js" | Push_action "'p ActionUnion"

fun host_step :: "('s, 'p) Props \<Rightarrow> ('s, 'p) event \<Rightarrow> ('s, 'p) Container \<Rightarrow> ('s, 'p) Container" where
  "host_step P (Mount epics) c = mount P epics c"
| "host_step P Cleanup c = cleanup c"
| "host_step P (Invoke name args) c = snd (wrappedActions P name args c)"
| "host_step P Render c = (case render (current_reducer P) c of Inl e \<Rightarrow> c | Inr c' \<Rightarrow> c')"
| "host_step P Publication c = publication c"
| "host_step P (Push_state s) c =
     (case activation c of None \<Rightarrow> c | Some a \<Rightarrow> c\<lparr>activation := Some (stateRef_next s a)\<rparr>)"
| "host_step P (Push_action x) c =
     (case activation c of None \<Rightarrow> c | Some a \<Rightarrow> c\<lparr>activation := Some (actionRef_next x a)\<rparr>)"

fun host_run :: "('s, 'p) Props \<Rightarrow> ('s, 'p) event list \<Rightarrow> ('s, 'p) Container \<Rightarrow> ('s, 'p) Container" where
  "host_run P [] c = c"
| "host_run P (e # es) c = host_run P es (host_step P e c)"

text \<open>What observer \<open>i\<close> has been called with, on the action bus and by the state observable.\<close>

definition action_calls_to :: "nat \<Rightarrow> ('s, 'p) Container \<Rightarrow> ('p ActionUnion \<times> 's js) list" where
  "action_calls_to i c =
     (case activation c of
        None \<Rightarrow> []
      | Some a \<Rightarrow> map snd (filter (\<lambda>x. fst x = i) (action_delivered a)))"

definition state_calls_to :: "nat \<Rightarrow> ('s, 'p) Container \<Rightarrow> 's js list" where
  "state_calls_to i c =
     (case activation c of None \<Rightarrow> [] | Some a \<Rightarrow> received i (state_obs a))"

text \<open>
  What holds of an activation at every moment, with \<open>n\<close> the next free observer
  number: distinctUntilChanged has last passed the value the StateObservable holds, no bus
  is stopped, no observer is attached twice, and every observer number is below \<open>n\<close>.
\<close>

definition activation_ok :: "nat \<Rightarrow> ('s, 'p) Activation \<Rightarrow> bool" where
  "activation_ok n a =
     (distinct_key a = Some (value (state_obs a)) \<and>
      \<not> isStopped (notifier (state_obs a)) \<and> \<not> isStopped (action_bus a) \<and>
      distinct (observers (action_bus a)) \<and> distinct (observers (notifier (state_obs a))) \<and>
      list_all (\<lambda>i. i < n) (observers (action_bus a)) \<and>
      list_all (\<lambda>i. i < n) (observers (notifier (state_obs a))) \<and>
      list_all (\<lambda>i. i < n) (effectSubscriptions a))"

definition well_formed :: "('s, 'p) Container \<Rightarrow> bool" where
  "well_formed c =
     (case activation c of None \<Rightarrow> True | Some a \<Rightarrow> activation_ok (next_observer c) a)"

text \<open>Observer \<open>i\<close> has been numbered and is attached to neither bus.\<close>

definition detached :: "nat \<Rightarrow> ('s, 'p) Container \<Rightarrow> bool" where
  "detached i c =
     (i < next_observer c \<and>
      (case activation c of
         None \<Rightarrow> True
       | Some a \<Rightarrow> i \<notin> set (observers (action_bus a)) \<and>
                  i \<notin> set (observers (notifier (state_obs a)))))"

section \<open>Example containers\<close>

text \<open>
  The example of the spec: \<^verbatim>\<open>{increment: () => state + 1, incrementAsync: () => undefined}\<close>
  over a number, with a third handler that throws; structural update is switched off.
\<close>

definition counter :: "(int, unit) Actions" where
  "counter s =
     [''increment'' \<mapsto>
        (\<lambda>args. Inr (case s of Undefined \<Rightarrow> Undefined | Defined n \<Rightarrow> Defined (n + 1))),
      ''incrementAsync'' \<mapsto> (\<lambda>args. Inr Undefined),
      ''fail'' \<mapsto> (\<lambda>args. Inl (Thrown ''boom''))]"

definition counter_props :: "(int, unit) Props" where
  "counter_props =
     \<lparr>createActions = counter, initialState = Defined 0,
      opts = fst (useEpics_opts defaultOptions \<lparr>immer = Some (Defined False), init = None\<rparr>),
      produce = (\<lambda>r. r)\<rparr>"

text \<open>Two epics: one built on both sources, one on the actions only.\<close>

definition two_epics :: "Epic list" where
  "two_epics = [\<lparr>on_action = True, on_state = True\<rparr>, \<lparr>on_action = True, on_state = False\<rparr>]"

text \<open>
  A handler of any number of parameters, \<^verbatim>\<open>{set: (...xs) => xs}\<close>: the next state is the list of
  the arguments the handler was called with.
\<close>

definition recorder :: "(nat js list, nat) Actions" where
  "recorder s = [''set'' \<mapsto> (\<lambda>args. Inr (Defined args))]"

definition recorder_props :: "(nat js list, nat) Props" where
  "recorder_props =
     \<lparr>createActions = recorder, initialState = Defined [],
      opts = fst (useEpics_opts defaultOptions \<lparr>immer = Some (Defined False), init = None\<rparr>),
      produce = (\<lambda>r. r)\<rparr>"



section \<open>Properties of StateObservable\<close>

lemma so_step_open: "\<not> isStopped (notifier so) \<Longrightarrow> \<not> isStopped (notifier (so_step x so))"
  by (cases x)
    (simp_all add: subscribe_def Subject_subscribe_def source_next_def unsubscribe_def
      Subject_unsubscribe_def)

lemma so_run_open: "\<not> isStopped (notifier so) \<Longrightarrow> \<not> isStopped (notifier (so_run xs so))"
  by (induction xs arbitrary: so) (simp_all add: so_step_open)

lemma new_open: "\<not> isStopped (notifier (so_run xs (StateObservable_new v0 log)))"
  by (rule so_run_open) (simp add: StateObservable_new_def Subject_new_def)

lemma so_step_extends: "\<exists>ys. delivered (so_step x so) = delivered so @ ys"
  by (cases x)
    (simp_all add: subscribe_def Subject_subscribe_def source_next_def unsubscribe_def
      Subject_next_def)

lemma so_run_extends: "\<exists>ys. delivered (so_run xs so) = delivered so @ ys"
proof (induction xs arbitrary: so)
  case Nil
  show ?case by simp
next
  case (Cons x xs)
  obtain ys where a: "delivered (so_step x so) = delivered so @ ys"
    using so_step_extends by blast
  obtain zs where b: "delivered (so_run xs (so_step x so)) = delivered (so_step x so) @ zs"
    using Cons.IH by blast
  show ?case using a b by simp
qed

lemma received_append:
  "delivered so' = delivered so @ ys \<Longrightarrow>
   received obs so' = received obs so @ map snd (filter (\<lambda>c. fst c = obs) ys)"
  by (simp add: received_def)

text \<open>
  Claim C4 (replay on subscribe). Take any StateObservable instance, that is, the object
  after the constructor and any history of subscriptions, arrivals and cancellations, and
  an observer that has not been called before. Subscribing it returns an open
  subscription and calls it at once, inside the subscribe call, with the current value;
  the current value is not changed by that; and whatever happens afterwards, the values
  this observer has been called with start with that value: it is the first notification,
  ahead of every value published later.
\<close>

theorem C4_replay_on_subscribe:
  assumes "so = so_run history (StateObservable_new v0 log)"
    and "received subscriber so = []"
  shows "fst (subscribe subscriber so) = False \<and>
         delivered (snd (subscribe subscriber so)) = delivered so @ [(subscriber, value so)] \<and>
         value (snd (subscribe subscriber so)) = value so \<and>
         (\<exists>rest. received subscriber (so_run later (snd (subscribe subscriber so))) = value so # rest)"
proof -
  have op: "\<not> isStopped (notifier so)"
    unfolding assms(1) by (rule new_open)
  have d: "delivered (snd (subscribe subscriber so)) = delivered so @ [(subscriber, value so)]"
    using op by (simp add: subscribe_def Subject_subscribe_def)
  obtain ys where ys: "delivered (so_run later (snd (subscribe subscriber so)))
      = delivered (snd (subscribe subscriber so)) @ ys"
    using so_run_extends by blast
  have "received subscriber (so_run later (snd (subscribe subscriber so)))
      = value so # map snd (filter (\<lambda>c. fst c = subscriber) ys)"
    using received_append [OF ys, of subscriber] received_append [OF d, of subscriber] assms(2)
    by simp
  then show ?thesis
    using op d by (simp add: subscribe_def Subject_subscribe_def)
qed

theorem C4_replay_on_subscribe_witness:
  "received (2::nat) (so_run [Subscribe 1, Arrive 5] (StateObservable_new (0::nat) [])) = [] \<and>
   fst (subscribe (2::nat) (so_run [Subscribe 1, Arrive 5] (StateObservable_new (0::nat) []))) = False \<and>
   received (2::nat) (so_run [Arrive 7, Arrive 7, Arrive 9]
       (snd (subscribe 2 (so_run [Subscribe 1, Arrive 5] (StateObservable_new (0::nat) []))))) = [5, 7, 9]"
  using C4_replay_on_subscribe [OF refl, where history = "[Subscribe (1::nat), Arrive (5::nat)]"
      and ?v0.0 = 0 and log = "[]" and subscriber = 2 and later = "[Arrive 7, Arrive 7, Arrive 9]"]
  by (simp add: received_def subscribe_def Subject_subscribe_def source_next_def
      Subject_next_def StateObservable_new_def Subject_new_def)

lemma so_step_strict_open:
  "\<not> isStopped (notifier so) \<Longrightarrow> \<not> isStopped (notifier (so_step_strict nan x so))"
  by (cases x)
    (simp_all add: subscribe_def Subject_subscribe_def source_next_strict_def unsubscribe_def
      Subject_unsubscribe_def)

lemma so_run_strict_open:
  "\<not> isStopped (notifier so) \<Longrightarrow> \<not> isStopped (notifier (so_run_strict nan xs so))"
  by (induction xs arbitrary: so) (simp_all add: so_step_strict_open)

lemma new_open_strict:
  "\<not> isStopped (notifier (so_run_strict nan xs (StateObservable_new v0 log)))"
  by (rule so_run_strict_open) (simp add: StateObservable_new_def Subject_new_def)

lemma source_next_plain: "source_next_strict (\<lambda>v. False) v so = source_next v so"
  by (simp add: source_next_strict_def source_next_def strict_differs_def)

text \<open>
  Claim C5, as amended (dedup). For any StateObservable instance and any value arriving
  from the source channel: a value identical to the stored one is dropped (the object, its
  value and the log of notifications stay as they are); any other value, that is a
  distinct one or one that is not identical to itself (NaN), becomes the stored value and
  every live subscriber is called with it, in subscription order. Hence a value that is
  identical to itself, published twice in succession, is notified at most once and never
  twice: the two arrivals together add to the log one call for each live subscriber when
  the value differs from the stored one, and nothing when it is identical to it. A value
  that is not identical to itself is notified at each of its arrivals.
\<close>

theorem C5_dedup:
  assumes "so = so_run_strict nan history (StateObservable_new v0 log)"
  shows "source_next_strict nan v so =
           (if v = value so \<and> \<not> nan v then so
            else so\<lparr>value := v,
                    delivered := delivered so @ map (\<lambda>obs. (obs, v)) (observers (notifier so))\<rparr>) \<and>
         delivered (source_next_strict nan v (source_next_strict nan v so)) =
           delivered so @
           (if nan v
            then map (\<lambda>obs. (obs, v)) (observers (notifier so)) @
                 map (\<lambda>obs. (obs, v)) (observers (notifier so))
            else if v = value so then []
            else map (\<lambda>obs. (obs, v)) (observers (notifier so)))"
proof -
  have op: "\<not> isStopped (notifier so)"
    unfolding assms by (rule new_open_strict)
  show ?thesis
    using op by (auto simp: source_next_strict_def strict_differs_def Subject_next_def)
qed

theorem C5_dedup_witness:
  "delivered (source_next_strict is_NaN (Num 5) (source_next_strict is_NaN (Num 5)
      (so_run_strict is_NaN [Subscribe (1::nat), Subscribe 2] (StateObservable_new (Num 0) []))))
     = [(1, Num 0), (2, Num 0), (1, Num 5), (2, Num 5)] \<and>
   value (source_next_strict is_NaN (Num 5) (source_next_strict is_NaN (Num 5)
      (so_run_strict is_NaN [Subscribe (1::nat), Subscribe 2] (StateObservable_new (Num 0) []))))
     = Num 5"
  using C5_dedup [OF refl, where nan = is_NaN and history = "[Subscribe (1::nat), Subscribe 2]"
      and ?v0.0 = "Num 0" and log = "[]" and v = "Num 5"]
  by (simp add: subscribe_def Subject_subscribe_def source_next_strict_def strict_differs_def
      is_NaN_def Subject_next_def StateObservable_new_def Subject_new_def)

text \<open>
  Claim C5 as stated fails in two ways. Where the value published twice is the stored
  one: the instance below holds 0 and has one live subscriber; 0 arrives twice and the
  subscriber is not called at all (the log still holds only the replay at subscribe
  time), where the claim has exactly one notification. And where the value is NaN: it
  arrives twice and the subscriber is called twice.
\<close>

theorem C5_stored_value_counterexample:
  "observers (notifier (so_run_strict is_NaN [Subscribe (1::nat)] (StateObservable_new (Num 0) [])))
     = [1] \<and>
   delivered (so_run_strict is_NaN [Subscribe (1::nat)] (StateObservable_new (Num 0) []))
     = [(1, Num 0)] \<and>
   delivered (so_run_strict is_NaN [Subscribe (1::nat), Arrive (Num 0), Arrive (Num 0)]
      (StateObservable_new (Num 0) [])) = [(1, Num 0)] \<and>
   delivered (so_run_strict is_NaN [Subscribe (1::nat), Arrive NaN, Arrive NaN]
      (StateObservable_new (Num 0) [])) = [(1, Num 0), (1, NaN), (1, NaN)]"
  by (simp add: subscribe_def Subject_subscribe_def source_next_strict_def strict_differs_def
      is_NaN_def Subject_next_def StateObservable_new_def Subject_new_def)

section \<open>Properties of the action filter and of the options\<close>

lemma ofType_loop_iff:
  "len = length keys \<Longrightarrow>
   ofType_loop ty keys i len = (\<exists>j. i \<le> j \<and> j < len \<and> ty = Defined (keys ! j))"
proof (induction ty keys i len rule: ofType_loop.induct)
  case (1 ty keys i len)
  show ?case
  proof (cases "i < len")
    case False
    then show ?thesis by (subst ofType_loop.simps) auto
  next
    case True
    show ?thesis
    proof (cases "ty = Defined (keys ! i)")
      case True
      with \<open>i < len\<close> show ?thesis by (subst ofType_loop.simps) auto
    next
      case False
      have "ofType_loop ty keys i len = ofType_loop ty keys (i + 1) len"
        using \<open>i < len\<close> False by (subst ofType_loop.simps) simp
      also have "\<dots> = (\<exists>j. i + 1 \<le> j \<and> j < len \<and> ty = Defined (keys ! j))"
        using "1.IH" [OF \<open>i < len\<close> False "1.prems"] .
      also have "\<dots> = (\<exists>j. i \<le> j \<and> j < len \<and> ty = Defined (keys ! j))"
        using False by (metis Suc_eq_plus1 Suc_leD Suc_leI le_neq_implies_less)
      finally show ?thesis .
    qed
  qed
qed

lemma ofType_predicate_iff:
  "ofType_predicate keys item =
     (case item of Undefined \<Rightarrow> False | Defined a \<Rightarrow> type a \<in> Defined ` set keys)"
proof (cases item)
  case Undefined
  then show ?thesis by (simp add: ofType_predicate_def)
next
  case (Defined a)
  have loop: "ofType_loop (type a) keys 0 (length keys) = (type a \<in> Defined ` set keys)"
    by (simp add: ofType_loop_iff image_iff) (metis in_set_conv_nth)
  show ?thesis
  proof (cases "length keys = 1")
    case True
    then obtain k where "keys = [k]" by (cases keys) auto
    then show ?thesis using Defined by (auto simp: ofType_predicate_def)
  next
    case False
    then show ?thesis using Defined loop by (simp add: ofType_predicate_def Let_def)
  qed
qed

text \<open>
  Claim C6 (type filtering). For every list of type names and every source stream, the
  filter yields exactly the items that are present and whose type tag is one of the names:
  the same items, untouched, in their original order (a subsequence of the source). Items
  of other types, items without a type tag and absent items are dropped without an error,
  and when nothing matches the result is the empty stream.
\<close>

theorem C6_ofType:
  "ofType keys source =
     filter (\<lambda>item. case item of Undefined \<Rightarrow> False | Defined a \<Rightarrow> type a \<in> Defined ` set keys) source \<and>
   subseq (ofType keys source) source \<and>
   ((\<forall>item \<in> set source. case item of Undefined \<Rightarrow> True | Defined a \<Rightarrow> type a \<notin> Defined ` set keys)
      \<longrightarrow> ofType keys source = [])"
proof -
  have eq: "ofType_predicate keys =
      (\<lambda>item. case item of Undefined \<Rightarrow> False | Defined a \<Rightarrow> type a \<in> Defined ` set keys)"
    by (rule ext) (rule ofType_predicate_iff)
  have a: "ofType keys source =
     filter (\<lambda>item. case item of Undefined \<Rightarrow> False | Defined a \<Rightarrow> type a \<in> Defined ` set keys) source"
    by (simp add: ofType_def eq)
  have b: "subseq (ofType keys source) source"
    by (simp add: ofType_def)
  have c: "(\<forall>item \<in> set source. case item of Undefined \<Rightarrow> True | Defined a \<Rightarrow> type a \<notin> Defined ` set keys)
      \<longrightarrow> ofType keys source = []"
    unfolding a by (auto simp: filter_empty_conv split: js.splits)
  show ?thesis by (intro conjI) (rule a, rule b, rule c)
qed

theorem C6_ofType_witness:
  "ofType [''A'', ''B'']
     [Defined \<lparr>type = Defined ''A'', payload = Defined (1::nat)\<rparr>,
      Defined \<lparr>type = Defined ''C'', payload = Defined 2\<rparr>,
      Undefined,
      Defined \<lparr>type = Undefined, payload = Defined 3\<rparr>,
      Defined \<lparr>type = Defined ''B'', payload = Undefined\<rparr>,
      Defined \<lparr>type = Defined ''A'', payload = Defined 4\<rparr>]
   = [Defined \<lparr>type = Defined ''A'', payload = Defined 1\<rparr>,
      Defined \<lparr>type = Defined ''B'', payload = Undefined\<rparr>,
      Defined \<lparr>type = Defined ''A'', payload = Defined 4\<rparr>] \<and>
   ofType [''A'', ''B'']
     [Defined \<lparr>type = Defined ''C'', payload = Defined (2::nat)\<rparr>, Undefined] = []"
  using C6_ofType [of "[''A'', ''B'']"
     "[Defined \<lparr>type = Defined ''A'', payload = Defined (1::nat)\<rparr>,
      Defined \<lparr>type = Defined ''C'', payload = Defined 2\<rparr>,
      Undefined,
      Defined \<lparr>type = Undefined, payload = Defined 3\<rparr>,
      Defined \<lparr>type = Defined ''B'', payload = Undefined\<rparr>,
      Defined \<lparr>type = Defined ''A'', payload = Defined 4\<rparr>]", THEN conjunct1]
    C6_ofType [of "[''A'', ''B'']"
     "[Defined \<lparr>type = Defined ''C'', payload = Defined (2::nat)\<rparr>, Undefined]", THEN conjunct1]
  by simp

text \<open>
  Claim C9 (the flag's default). On the pristine module a call that omits the flag runs in
  draft mode. After one call that passed \<^verbatim>\<open>{immer: false}\<close>, the module's default object
  holds \<^verbatim>\<open>false\<close>, and a later call that omits the flag does not run in draft mode: the
  claim fails on the code.
\<close>

theorem C9_default_overwritten:
  "draft_mode (fst (useEpics_opts (defaultOptions :: unit Options) no_options)) \<and>
   \<not> draft_mode (fst (useEpics_opts
        (snd (useEpics_opts (defaultOptions :: unit Options) \<lparr>immer = Some (Defined False), init = None\<rparr>))
        no_options))"
  by (simp add: draft_mode_def truthy_flag_def read_def useEpics_opts_def Object_assign_def
      assign_property_def defaultOptions_def no_options_def Let_def)

section \<open>What holds of every reachable container\<close>

lemma activation_ok_mono: "activation_ok n a \<Longrightarrow> n \<le> m \<Longrightarrow> activation_ok m a"
  by (auto simp: activation_ok_def list_all_iff)

lemma subscribe_epic_ok: "activation_ok i a \<Longrightarrow> activation_ok (Suc i) (subscribe_epic i e a)"
  by (auto simp: activation_ok_def subscribe_epic_def Let_def Subject_subscribe_def
      subscribe_def list_all_iff less_Suc_eq)

lemma subscribe_epics_ok:
  "activation_ok i a \<Longrightarrow> activation_ok (i + length es) (subscribe_epics i es a)"
proof (induction es arbitrary: i a)
  case Nil
  then show ?case by simp
next
  case (Cons e es)
  have "activation_ok (Suc i + length es) (subscribe_epics (Suc i) es (subscribe_epic i e a))"
    by (rule Cons.IH) (rule subscribe_epic_ok [OF Cons.prems])
  then show ?case by simp
qed

lemma new_activation_ok:
  "activation_ok (n + length epics) (new_activation options seed epics n slog alog)"
proof -
  have "activation_ok n (distinct_next (initializedState options seed)
      \<lparr>behavior_value = initializedState options seed, distinct_key = None,
       state_obs = StateObservable_new (initializedState options seed) slog,
       action_bus = Subject_new, action_delivered = alog, effectSubscriptions = []\<rparr>)"
    by (simp add: activation_ok_def distinct_next_def source_next_def StateObservable_new_def
        Subject_new_def)
  then show ?thesis
    unfolding new_activation_def Let_def by (rule subscribe_epics_ok)
qed

lemma unsubscribe_epic_ok: "activation_ok n a \<Longrightarrow> activation_ok n (unsubscribe_epic i a)"
  by (auto simp: activation_ok_def unsubscribe_epic_def Subject_unsubscribe_def unsubscribe_def
      list_all_iff dest: notin_set_remove1)

lemma fold_unsubscribe_ok: "activation_ok n a \<Longrightarrow> activation_ok n (fold unsubscribe_epic is a)"
  by (induction "is" arbitrary: a) (simp_all add: unsubscribe_epic_ok)

lemma fold_unsubscribe_subs [simp]:
  "effectSubscriptions (fold unsubscribe_epic is a) = effectSubscriptions a"
  by (induction "is" arbitrary: a) (simp_all add: unsubscribe_epic_def)

lemma cleanup_activation_ok: "activation_ok n a \<Longrightarrow> activation_ok n (cleanup_activation a)"
  by (simp add: cleanup_activation_def fold_unsubscribe_ok)

lemma stateRef_next_ok: "activation_ok n a \<Longrightarrow> activation_ok n (stateRef_next s a)"
  by (auto simp: activation_ok_def stateRef_next_def distinct_next_def source_next_def)

lemma actionRef_next_ok: "activation_ok n a \<Longrightarrow> activation_ok n (actionRef_next x a)"
  by (simp add: activation_ok_def actionRef_next_def)

lemma wrappedActions_frame:
  "activation (snd (wrappedActions P name args c)) = activation c \<and>
   next_observer (snd (wrappedActions P name args c)) = next_observer c \<and>
   state (snd (wrappedActions P name args c)) = state c \<and>
   lastAction (snd (wrappedActions P name args c)) = lastAction c"
  by (simp add: wrappedActions_def dispatchWithEpic_def setLastAction_def dispatch_def Let_def
      split: option.splits sum.splits)

lemma render_frame:
  "render R c = Inr c' \<Longrightarrow> activation c' = activation c \<and> next_observer c' = next_observer c"
  by (auto simp: render_def split: sum.splits)

lemma well_formed_step: "well_formed c \<Longrightarrow> well_formed (host_step P ev c)"
proof (cases ev)
  case (Mount epics)
  then show ?thesis
    by (simp add: well_formed_def mount_def Let_def new_activation_ok)
next
  case Cleanup
  assume "well_formed c"
  then show ?thesis using Cleanup
    by (auto simp: well_formed_def cleanup_def cleanup_activation_ok split: option.splits)
next
  case (Invoke name args)
  assume "well_formed c"
  then show ?thesis using Invoke wrappedActions_frame [of P name args c]
    by (auto simp: well_formed_def split: option.splits)
next
  case Render
  assume "well_formed c"
  then show ?thesis using Render
    by (auto simp: well_formed_def split: sum.splits option.splits dest!: render_frame)
next
  case Publication
  assume "well_formed c"
  then show ?thesis using Publication
    by (auto simp: well_formed_def publication_def setLastAction_def stateRef_next_ok
        actionRef_next_ok split: option.splits)
next
  case (Push_state s)
  assume "well_formed c"
  then show ?thesis using Push_state
    by (auto simp: well_formed_def stateRef_next_ok split: option.splits)
next
  case (Push_action x)
  assume "well_formed c"
  then show ?thesis using Push_action
    by (auto simp: well_formed_def actionRef_next_ok split: option.splits)
qed

lemma well_formed_run: "well_formed c \<Longrightarrow> well_formed (host_run P evs c)"
  by (induction evs arbitrary: c) (simp_all add: well_formed_step)

lemma well_formed_reachable: "well_formed (host_run P evs (first_render P))"
  by (rule well_formed_run) (simp add: well_formed_def first_render_def Let_def)

lemma stateRef_next_value:
  "activation_ok n a \<Longrightarrow>
   value (state_obs (stateRef_next s a)) = s \<and> behavior_value (stateRef_next s a) = s \<and>
   action_bus (stateRef_next s a) = action_bus a \<and>
   action_delivered (stateRef_next s a) = action_delivered a"
  by (auto simp: activation_ok_def stateRef_next_def distinct_next_def source_next_def)

lemma actionRef_next_delivered:
  "activation_ok n a \<Longrightarrow>
   action_delivered (actionRef_next x a) =
     action_delivered a @ map (\<lambda>i. (i, x, value (state_obs a))) (observers (action_bus a)) \<and>
   state_obs (actionRef_next x a) = state_obs a \<and>
   behavior_value (actionRef_next x a) = behavior_value a"
  by (simp add: activation_ok_def actionRef_next_def Subject_next_def)

lemma publication_pushes:
  assumes "well_formed c" and "activation c = Some a" and "lastAction c = Some x"
  shows "\<exists>a3. activation (publication c) = Some a3 \<and>
           behavior_value a3 = state c \<and> value (state_obs a3) = state c \<and>
           action_delivered a3 =
             action_delivered a @ map (\<lambda>i. (i, x, state c)) (observers (action_bus a))"
proof -
  have ok: "activation_ok (next_observer c) a"
    using assms(1,2) by (simp add: well_formed_def)
  have ok': "activation_ok (next_observer c) (stateRef_next (state c) a)"
    by (rule stateRef_next_ok [OF ok])
  show ?thesis
    using assms(2,3) stateRef_next_value [OF ok, of "state c"]
      actionRef_next_delivered [OF ok', of x]
    by (simp add: publication_def setLastAction_def)
qed

lemma reduce_all_snoc:
  "reduce_all R (xs @ [x]) s =
     (case reduce_all R xs s of Inl e \<Rightarrow> Inl e | Inr s' \<Rightarrow> R s' x)"
  by (induction xs arbitrary: s) (auto split: sum.splits)

text \<open>The definitions that a concrete run unfolds.\<close>

lemmas eval_defs =
  Subject_new_def Subject_subscribe_def Subject_next_def Subject_unsubscribe_def
  StateObservable_new_def subscribe_def source_next_def unsubscribe_def received_def
  defaultOptions_def read_def assign_property_def Object_assign_def
  useEpics_opts_def truthy_flag_def draft_mode_def property_key_def update_def reducer_def
  distinct_next_def stateRef_next_def actionRef_next_def initializedState_def
  subscribe_epic_def new_activation_def unsubscribe_epic_def cleanup_activation_def
  current_reducer_def first_render_def mount_def cleanup_def dispatch_def setLastAction_def
  first_argument_def dispatchWithEpic_def wrappedActions_def render_def publication_def
  action_calls_to_def state_calls_to_def counter_def counter_props_def two_epics_def
  Let_def

section \<open>Properties of the container\<close>

text \<open>
  Claim C1 (a callback dispatches its arguments). The claim has the payload be the whole
  argument sequence. On the code it is the first argument only: for the handler
  \<^verbatim>\<open>set: (...xs) => xs\<close> the call \<^verbatim>\<open>set(1, 2)\<close> builds the action
  \<^verbatim>\<open>{type: "set", payload: 1}\<close>, the reduction calls the handler with the one argument
  \<^verbatim>\<open>1\<close> (the next state is \<^verbatim>\<open>[1]\<close>, where the handler applied to the caller's
  arguments gives \<^verbatim>\<open>[1, 2]\<close>), and the action that reaches an epic carries the payload
  \<^verbatim>\<open>1\<close>.
\<close>

theorem C1_only_first_argument:
  "wrappedActions recorder_props ''set'' [Defined 1, Defined 2] (first_render recorder_props)
     = (None, (first_render recorder_props)
          \<lparr>dispatched := [\<lparr>type = Defined ''set'', payload = Defined 1\<rparr>],
            lastAction_queue := [Some \<lparr>type = Defined ''set'', payload = Defined 1\<rparr>]\<rparr>) \<and>
   state (host_run recorder_props [Invoke ''set'' [Defined 1, Defined 2], Render]
      (first_render recorder_props)) = Defined [Defined 1] \<and>
   action_calls_to 0 (host_run recorder_props
      [Mount two_epics, Invoke ''set'' [Defined 1, Defined 2], Render, Publication]
      (first_render recorder_props))
     = [(\<lparr>type = Defined ''set'', payload = Defined 1\<rparr>, Defined [Defined 1])]"
  by (simp add: eval_defs recorder_def recorder_props_def)

text \<open>
  Claim C2 (state before action). Take a container reached from its first render by any
  history, activated, and a callback invocation that changes state: the reduction made by
  the callback returns a defined state, so the action is dispatched. Let the host render:
  the state of that render is the result of reducing the dispatched actions, this one
  last, from the state before. Then the publication pass calls every observer of the
  action bus with this action, and at each of these calls the value of the state
  observable already is that post-reduction state: the pass has pushed the state into the
  state bus first.
\<close>

theorem C2_state_before_action:
  assumes "c = host_run P history (first_render P)"
    and "activation c = Some a"
    and "createActions P (initialState P) name = Some h"
    and "current_reducer P (closure_state c)
           \<lparr>type = Defined name, payload = first_argument args\<rparr> = Inr nextState"
    and "nextState \<noteq> Undefined"
    and "render (current_reducer P) (snd (wrappedActions P name args c)) = Inr c2"
  shows "reduce_all (current_reducer P)
           (dispatched c @ [\<lparr>type = Defined name, payload = first_argument args\<rparr>]) (state c)
           = Inr (state c2) \<and>
         (\<exists>a3. activation (publication c2) = Some a3 \<and>
            value (state_obs a3) = state c2 \<and>
            action_delivered a3 =
              action_delivered a @
              map (\<lambda>i. (i, \<lparr>type = Defined name, payload = first_argument args\<rparr>, state c2))
                (observers (action_bus a)))"
proof -
  let ?x = "\<lparr>type = Defined name, payload = first_argument args\<rparr>"
  have wf: "well_formed c"
    unfolding assms(1) by (rule well_formed_reachable)
  have c1: "snd (wrappedActions P name args c) =
      c\<lparr>dispatched := dispatched c @ [?x], lastAction_queue := lastAction_queue c @ [Some ?x]\<rparr>"
    using assms(3,4,5)
    by (simp add: wrappedActions_def dispatchWithEpic_def setLastAction_def dispatch_def Let_def)
  have r: "reduce_all (current_reducer P) (dispatched c @ [?x]) (state c) = Inr (state c2)"
    using assms(6) unfolding c1 by (auto simp: render_def split: sum.splits)
  have c2: "activation c2 = Some a \<and> next_observer c2 = next_observer c \<and>
      lastAction c2 = Some ?x"
    using assms(6,2) unfolding c1 by (auto simp: render_def split: sum.splits)
  have wf2: "well_formed c2"
    using wf assms(2) c2 by (simp add: well_formed_def)
  show ?thesis
    using r publication_pushes [OF wf2, of a ?x] c2 by auto
qed

theorem C2_state_before_action_witness:
  "\<exists>a3. activation (publication (host_run counter_props
            [Mount two_epics, Invoke ''increment'' [], Render] (first_render counter_props)))
          = Some a3 \<and>
        value (state_obs a3) = Defined 1 \<and>
        action_delivered a3 =
          [(0, \<lparr>type = Defined ''increment'', payload = Undefined\<rparr>, Defined 1),
           (1, \<lparr>type = Defined ''increment'', payload = Undefined\<rparr>, Defined 1)]"
  using C2_state_before_action [OF refl, where P = counter_props and history = "[Mount two_epics]"
      and name = "''increment''" and args = "[]"
      and a = "the (activation (host_run counter_props [Mount two_epics] (first_render counter_props)))"
      and h = "\<lambda>args. Inr (Defined 1)" and nextState = "Defined 1"
      and ?c2.0 = "host_run counter_props [Mount two_epics, Invoke ''increment'' [], Render]
          (first_render counter_props)"]
  by (simp add: eval_defs)

text \<open>
  An effect-only invocation that stands alone. Structural update is off, nothing is
  waiting to be reduced, and the handler, called by the callback on the state the
  callbacks hold, returns \<^verbatim>\<open>undefined\<close>. Then the invocation throws nothing, dispatches
  nothing and leaves the state as it is; if the render and the publication pass follow
  with no other invocation in between, the state stays unchanged and every observer of
  the action bus is called with the action.
\<close>

lemma effect_only_alone:
  assumes "c = host_run P history (first_render P)"
    and "activation c = Some a"
    and "dispatched c = []"
    and "\<not> draft_mode (opts P)"
    and "createActions P (initialState P) name = Some h0"
    and "createActions P (closure_state c) name = Some h"
    and "h [first_argument args] = Inr Undefined"
  shows "fst (wrappedActions P name args c) = None \<and>
         state (snd (wrappedActions P name args c)) = state c \<and>
         dispatched (snd (wrappedActions P name args c)) = [] \<and>
         (\<exists>c2 a3. render (current_reducer P) (snd (wrappedActions P name args c)) = Inr c2 \<and>
            state c2 = state c \<and>
            lastAction c2 = Some \<lparr>type = Defined name, payload = first_argument args\<rparr> \<and>
            state (publication c2) = state c \<and>
            activation (publication c2) = Some a3 \<and>
            action_delivered a3 =
              action_delivered a @
              map (\<lambda>i. (i, \<lparr>type = Defined name, payload = first_argument args\<rparr>, state c))
                (observers (action_bus a))) \<and>
         (\<forall>keys. ofType_predicate keys
              (Defined \<lparr>type = Defined name, payload = first_argument args\<rparr>) = (name \<in> set keys))"
proof -
  let ?x = "\<lparr>type = Defined name, payload = first_argument args\<rparr>"
  let ?c1 = "c\<lparr>lastAction_queue := lastAction_queue c @ [Some ?x]\<rparr>"
  let ?c2 = "c\<lparr>lastAction := Some ?x, lastAction_queue := []\<rparr>"
  have wf: "well_formed c"
    unfolding assms(1) by (rule well_formed_reachable)
  have probe: "current_reducer P (closure_state c) ?x = Inr Undefined"
    using assms(4,6,7)
    by (simp add: current_reducer_def reducer_def draft_mode_def update_def property_key_def)
  have w: "wrappedActions P name args c = (None, ?c1)"
    using assms(5) probe
    by (simp add: wrappedActions_def dispatchWithEpic_def setLastAction_def Let_def)
  have r: "render (current_reducer P) ?c1 = Inr ?c2"
    using assms(3) by (simp add: render_def)
  have wf2: "well_formed ?c2"
    using wf by (auto simp: well_formed_def split: option.splits)
  have p: "\<exists>a3. activation (publication ?c2) = Some a3 \<and>
           behavior_value a3 = state ?c2 \<and> value (state_obs a3) = state ?c2 \<and>
           action_delivered a3 =
             action_delivered a @ map (\<lambda>i. (i, ?x, state ?c2)) (observers (action_bus a))"
    by (rule publication_pushes [OF wf2]) (simp_all add: assms(2))
  have s: "state (publication ?c2) = state c"
    by (simp add: publication_def setLastAction_def assms(2))
  have f: "\<forall>keys. ofType_predicate keys (Defined ?x) = (name \<in> set keys)"
    by (auto simp: ofType_predicate_iff)
  show ?thesis
    using w r p s f assms(3) by auto
qed

text \<open>
  Claim C3 (effect only). The handler \<^verbatim>\<open>incrementAsync\<close> returns \<^verbatim>\<open>undefined\<close>,
  structural update is off. Its callback is invoked and, before the host renders,
  the callback \<^verbatim>\<open>increment\<close> is invoked too (two calls in one batch). The first
  invocation throws nothing and dispatches nothing, as the claim says. But both calls
  write the one cell \<^verbatim>\<open>lastAction\<close>: the render keeps the second action only, the pass
  publishes that one, and the effect-only action never reaches an observer of the action
  bus, in this pass or in a later one. The claim has it recorded and published.
\<close>

theorem C3_action_lost_in_batch:
  "fst (wrappedActions counter_props ''incrementAsync'' []
      (host_run counter_props [Mount two_epics] (first_render counter_props))) = None \<and>
   dispatched (host_run counter_props [Mount two_epics, Invoke ''incrementAsync'' []]
      (first_render counter_props)) = [] \<and>
   lastAction_queue (host_run counter_props
      [Mount two_epics, Invoke ''incrementAsync'' [], Invoke ''increment'' []]
      (first_render counter_props))
     = [Some \<lparr>type = Defined ''incrementAsync'', payload = Undefined\<rparr>,
        Some \<lparr>type = Defined ''increment'', payload = Undefined\<rparr>] \<and>
   lastAction (host_run counter_props
      [Mount two_epics, Invoke ''incrementAsync'' [], Invoke ''increment'' [], Render]
      (first_render counter_props))
     = Some \<lparr>type = Defined ''increment'', payload = Undefined\<rparr> \<and>
   action_calls_to 0 (host_run counter_props
      [Mount two_epics, Invoke ''incrementAsync'' [], Invoke ''increment'' [],
       Render, Publication, Render, Publication]
      (first_render counter_props))
     = [(\<lparr>type = Defined ''increment'', payload = Undefined\<rparr>, Defined 1)] \<and>
   action_calls_to 1 (host_run counter_props
      [Mount two_epics, Invoke ''incrementAsync'' [], Invoke ''increment'' [],
       Render, Publication, Render, Publication]
      (first_render counter_props))
     = [(\<lparr>type = Defined ''increment'', payload = Undefined\<rparr>, Defined 1)]"
  by (simp add: eval_defs)

text \<open>
  The pass is its two parts in sequence. A callback that an observer invokes during the
  pushes falls between them: the clearing of line 176 then comes after the callback's
  \<^verbatim>\<open>setLastAction\<close>, the next render holds no action, and the callback's action is not
  published either.
\<close>

lemma publication_split: "publication c = publication_clear (publication_push c)"
  by (simp add: publication_def publication_push_def publication_clear_def setLastAction_def
      split: option.splits)

lemma callback_inside_pass_lost:
  "lastAction_queue (publication_clear (snd (wrappedActions counter_props ''incrementAsync'' []
      (publication_push (host_run counter_props
         [Mount two_epics, Invoke ''increment'' [], Render] (first_render counter_props))))))
     = [Some \<lparr>type = Defined ''incrementAsync'', payload = Undefined\<rparr>, None] \<and>
   (case render (current_reducer counter_props)
      (publication_clear (snd (wrappedActions counter_props ''incrementAsync'' []
        (publication_push (host_run counter_props
           [Mount two_epics, Invoke ''increment'' [], Render] (first_render counter_props))))))
    of Inl e \<Rightarrow> False
     | Inr c \<Rightarrow> lastAction c = None \<and>
         action_calls_to 0 (publication c)
           = [(\<lparr>type = Defined ''increment'', payload = Undefined\<rparr>, Defined 1)])"
  by (simp add: eval_defs publication_push_def publication_clear_def)




lemma handler_throws:
  "\<not> draft_mode (opts P) \<Longrightarrow> createActions P s name = Some h \<Longrightarrow>
   h [payload x] = Inl e \<Longrightarrow> type x = Defined name \<Longrightarrow> current_reducer P s x = Inl e"
  by (simp add: current_reducer_def reducer_def draft_mode_def update_def property_key_def)

text \<open>
  Claim C10, as amended (the publication pass reaches the state bus). For every reachable,
  activated container that holds a recorded action, the call
  \<^verbatim>\<open>stateRef$.current.next(state)\<close> of the pass is a publication: afterwards the
  BehaviorSubject holds the state of the render, the state observable's value equals it,
  and every observer of the action bus has been called with the recorded action paired
  with that state.
\<close>

theorem C10_state_is_published:
  assumes "c = host_run P history (first_render P)"
    and "activation c = Some a"
    and "lastAction c = Some x"
  shows "\<exists>a3. activation (publication c) = Some a3 \<and>
           behavior_value a3 = state c \<and> value (state_obs a3) = state c \<and>
           action_delivered a3 =
             action_delivered a @ map (\<lambda>i. (i, x, state c)) (observers (action_bus a))"
proof -
  have wf: "well_formed c"
    unfolding assms(1) by (rule well_formed_reachable)
  show ?thesis
    by (rule publication_pushes [OF wf assms(2,3)])
qed

theorem C10_state_is_published_witness:
  "\<exists>a3. activation (publication (host_run counter_props
            [Mount two_epics, Invoke ''increment'' [], Render] (first_render counter_props)))
          = Some a3 \<and>
        behavior_value a3 = Defined 1 \<and> value (state_obs a3) = Defined 1"
  using C10_state_is_published [OF refl, where P = counter_props
      and history = "[Mount two_epics, Invoke ''increment'' [], Render]"
      and a = "the (activation (host_run counter_props [Mount two_epics] (first_render counter_props)))"
      and x = "\<lparr>type = Defined ''increment'', payload = Undefined\<rparr>"]
  by (simp add: eval_defs)

text \<open>
  Claim C10 as stated fails: in the run below the pass does not stop at a missing
  operation. Before the pass the state observable holds the state of the first render, 0;
  after it, it holds the post-reduction state 1, and the observer of the state observable
  has been called with it.
\<close>

theorem C10_publication_counterexample:
  "value (state_obs (the (activation (host_run counter_props
      [Mount two_epics, Invoke ''increment'' [], Render] (first_render counter_props)))))
     = Defined 0 \<and>
   value (state_obs (the (activation (host_run counter_props
      [Mount two_epics, Invoke ''increment'' [], Render, Publication] (first_render counter_props)))))
     = Defined 1 \<and>
   state_calls_to 0 (host_run counter_props
      [Mount two_epics, Invoke ''increment'' [], Render, Publication] (first_render counter_props))
     = [Defined 0, Defined 1]"
  by (simp add: eval_defs)

section \<open>Disposal\<close>

lemma fold_remove1_subset: "set (fold remove1 js xs) \<subseteq> set xs"
proof (induction js arbitrary: xs)
  case Nil
  show ?case by simp
next
  case (Cons j js)
  have "set (fold remove1 js (remove1 j xs)) \<subseteq> set (remove1 j xs)"
    by (rule Cons.IH)
  also have "\<dots> \<subseteq> set xs"
    by (rule set_remove1_subset)
  finally show ?case by simp
qed

lemma fold_remove1_notin: "i \<notin> set xs \<Longrightarrow> i \<notin> set (fold remove1 js xs)"
  using fold_remove1_subset [of js xs] by auto

lemma fold_remove1_gone: "distinct xs \<Longrightarrow> i \<in> set js \<Longrightarrow> i \<notin> set (fold remove1 js xs)"
proof (induction js arbitrary: xs)
  case Nil
  then show ?case by simp
next
  case (Cons j js)
  show ?case
  proof (cases "i = j")
    case True
    have "i \<notin> set (remove1 j xs)"
      using True Cons.prems(1) by simp
    then show ?thesis
      using fold_remove1_subset [of js "remove1 j xs"] by auto
  next
    case False
    then have "i \<in> set js"
      using Cons.prems(2) by simp
    moreover have "distinct (remove1 j xs)"
      using Cons.prems(1) by simp
    ultimately show ?thesis
      using Cons.IH by simp
  qed
qed

lemma fold_unsubscribe_observers:
  "observers (action_bus (fold unsubscribe_epic js a)) = fold remove1 js (observers (action_bus a)) \<and>
   observers (notifier (state_obs (fold unsubscribe_epic js a)))
     = fold remove1 js (observers (notifier (state_obs a))) \<and>
   delivered (state_obs (fold unsubscribe_epic js a)) = delivered (state_obs a) \<and>
   action_delivered (fold unsubscribe_epic js a) = action_delivered a"
  by (induction js arbitrary: a)
    (simp_all add: unsubscribe_epic_def Subject_unsubscribe_def unsubscribe_def)

lemma cleanup_detaches:
  assumes "activation_ok n a" and "i \<in> set (effectSubscriptions a)"
  shows "i \<notin> set (observers (action_bus (cleanup_activation a))) \<and>
         i \<notin> set (observers (notifier (state_obs (cleanup_activation a))))"
  using assms
  by (simp add: cleanup_activation_def fold_unsubscribe_observers activation_ok_def
      fold_remove1_gone)

lemma subscribe_epic_frame:
  assumes "i < k"
  shows "action_delivered (subscribe_epic k e a) = action_delivered a \<and>
     received i (state_obs (subscribe_epic k e a)) = received i (state_obs a) \<and>
     (i \<notin> set (observers (action_bus a)) \<longrightarrow> i \<notin> set (observers (action_bus (subscribe_epic k e a)))) \<and>
     (i \<notin> set (observers (notifier (state_obs a))) \<longrightarrow>
        i \<notin> set (observers (notifier (state_obs (subscribe_epic k e a)))))"
  using assms
  by (auto simp: subscribe_epic_def Let_def Subject_subscribe_def subscribe_def received_def)

lemma subscribe_epics_frame:
  assumes "i < k"
  shows "action_delivered (subscribe_epics k es a) = action_delivered a \<and>
     received i (state_obs (subscribe_epics k es a)) = received i (state_obs a) \<and>
     (i \<notin> set (observers (action_bus a)) \<longrightarrow> i \<notin> set (observers (action_bus (subscribe_epics k es a)))) \<and>
     (i \<notin> set (observers (notifier (state_obs a))) \<longrightarrow>
        i \<notin> set (observers (notifier (state_obs (subscribe_epics k es a)))))"
  using assms
proof (induction es arbitrary: k a)
  case Nil
  show ?case by simp
next
  case (Cons e es)
  have s: "i < Suc k" using Cons.prems by simp
  show ?case
    using Cons.IH [OF s, of "subscribe_epic k e a"] subscribe_epic_frame [OF Cons.prems, of e a]
    by simp
qed

lemma new_activation_frame:
  assumes "i < n"
  shows "action_delivered (new_activation options seed epics n slog alog) = alog \<and>
     received i (state_obs (new_activation options seed epics n slog alog))
       = map snd (filter (\<lambda>c. fst c = i) slog) \<and>
     i \<notin> set (observers (action_bus (new_activation options seed epics n slog alog))) \<and>
     i \<notin> set (observers (notifier (state_obs (new_activation options seed epics n slog alog))))"
  using subscribe_epics_frame [OF assms, of epics
      "distinct_next (initializedState options seed)
        \<lparr>behavior_value = initializedState options seed, distinct_key = None,
         state_obs = StateObservable_new (initializedState options seed) slog,
         action_bus = Subject_new, action_delivered = alog, effectSubscriptions = []\<rparr>"]
  by (simp add: new_activation_def Let_def distinct_next_def source_next_def
      StateObservable_new_def Subject_new_def received_def)

lemma stateRef_next_frame:
  assumes "i \<notin> set (observers (notifier (state_obs a)))"
  shows "observers (action_bus (stateRef_next s a)) = observers (action_bus a) \<and>
     observers (notifier (state_obs (stateRef_next s a))) = observers (notifier (state_obs a)) \<and>
     received i (state_obs (stateRef_next s a)) = received i (state_obs a) \<and>
     action_delivered (stateRef_next s a) = action_delivered a"
  using assms
  by (auto simp: stateRef_next_def distinct_next_def source_next_def Subject_next_def
      received_def filter_empty_conv)

lemma actionRef_next_frame:
  assumes "i \<notin> set (observers (action_bus a))"
  shows "observers (action_bus (actionRef_next x a)) = observers (action_bus a) \<and>
     state_obs (actionRef_next x a) = state_obs a \<and>
     filter (\<lambda>c. fst c = i) (action_delivered (actionRef_next x a))
       = filter (\<lambda>c. fst c = i) (action_delivered a)"
  using assms
  by (auto simp: actionRef_next_def Subject_next_def filter_empty_conv)

lemma detached_step:
  assumes "detached i c"
  shows "detached i (host_step P ev c) \<and>
         action_calls_to i (host_step P ev c) = action_calls_to i c \<and>
         state_calls_to i (host_step P ev c) = state_calls_to i c"
proof (cases ev)
  case (Mount epics)
  have n: "i < next_observer c" using assms by (simp add: detached_def)
  show ?thesis
  proof (cases "activation c")
    case None
    show ?thesis
      using Mount n None
      by (simp add: detached_def mount_def Let_def action_calls_to_def state_calls_to_def
          new_activation_frame [OF n])
  next
    case (Some old)
    show ?thesis
      using Mount n Some
      by (simp add: detached_def mount_def Let_def action_calls_to_def state_calls_to_def
          new_activation_frame [OF n] received_def [of i "state_obs old"])
  qed
next
  case Cleanup
  show ?thesis
    using Cleanup assms
    by (auto simp: detached_def cleanup_def cleanup_activation_def fold_unsubscribe_observers
        action_calls_to_def state_calls_to_def received_def fold_remove1_notin
        split: option.splits)
next
  case (Invoke name args)
  show ?thesis
    using Invoke assms wrappedActions_frame [of P name args c]
    by (simp add: detached_def action_calls_to_def state_calls_to_def)
next
  case Render
  show ?thesis
    using Render assms
    by (auto simp: detached_def action_calls_to_def state_calls_to_def split: sum.splits
        dest!: render_frame)
next
  case Publication
  show ?thesis
  proof (cases "activation c")
    case None
    then show ?thesis using Publication assms
      by (simp add: publication_def split: option.splits)
  next
    case (Some a)
    have d: "i \<notin> set (observers (action_bus a))" "i \<notin> set (observers (notifier (state_obs a)))"
      using assms Some by (simp_all add: detached_def)
    have d': "i \<notin> set (observers (action_bus (stateRef_next (state c) a)))"
      using d(1) stateRef_next_frame [OF d(2), of "state c"] by simp
    show ?thesis
    proof (cases "lastAction c")
      case None
      then show ?thesis using Publication assms by (simp add: publication_def)
    next
      case (Some x)
      show ?thesis
        using Publication assms \<open>activation c = Some a\<close> Some d
          stateRef_next_frame [OF d(2), of "state c"]
          actionRef_next_frame [OF d', of x]
        by (simp add: publication_def setLastAction_def detached_def action_calls_to_def
            state_calls_to_def)
    qed
  qed
next
  case (Push_state s)
  show ?thesis
  proof (cases "activation c")
    case None
    then show ?thesis using Push_state assms by simp
  next
    case (Some a)
    have d: "i \<notin> set (observers (action_bus a))" "i \<notin> set (observers (notifier (state_obs a)))"
      using assms Some by (simp_all add: detached_def)
    show ?thesis
      using Push_state assms Some d stateRef_next_frame [OF d(2), of s]
      by (simp add: detached_def action_calls_to_def state_calls_to_def)
  qed
next
  case (Push_action x)
  show ?thesis
  proof (cases "activation c")
    case None
    then show ?thesis using Push_action assms by simp
  next
    case (Some a)
    have d: "i \<notin> set (observers (action_bus a))" "i \<notin> set (observers (notifier (state_obs a)))"
      using assms Some by (simp_all add: detached_def)
    show ?thesis
      using Push_action assms Some d actionRef_next_frame [OF d(1), of x]
      by (simp add: detached_def action_calls_to_def state_calls_to_def)
  qed
qed

lemma detached_run:
  "detached i c \<Longrightarrow>
   action_calls_to i (host_run P evs c) = action_calls_to i c \<and>
   state_calls_to i (host_run P evs c) = state_calls_to i c"
proof (induction evs arbitrary: c)
  case Nil
  show ?case by simp
next
  case (Cons ev evs)
  show ?case
    using Cons.IH [of "host_step P ev c"] detached_step [OF Cons.prems, of P ev] by simp
qed

text \<open>
  Claim C7 (disposal cancels subscriptions). Take a reachable, activated container and
  any subscription \<open>i\<close> its activation created. After the cleanup (run at unmount and
  when the epic list changes) the observer of that subscription is attached to neither
  the action bus nor the state observable; and whatever happens later, be it pushes on the
  buses, callbacks, renders, publication passes or a new activation with a new epic list,
  this observer is never called again: the calls it has received, on the action side and
  on the state side, stay what they were.
\<close>

theorem C7_disposal:
  assumes "c = host_run P history (first_render P)"
    and "activation c = Some a"
    and "i \<in> set (effectSubscriptions a)"
  shows "(\<exists>a'. activation (cleanup c) = Some a' \<and>
            i \<notin> set (observers (action_bus a')) \<and>
            i \<notin> set (observers (notifier (state_obs a')))) \<and>
         action_calls_to i (host_run P later (cleanup c)) = action_calls_to i c \<and>
         state_calls_to i (host_run P later (cleanup c)) = state_calls_to i c"
proof -
  have wf: "well_formed c"
    unfolding assms(1) by (rule well_formed_reachable)
  have ok: "activation_ok (next_observer c) a"
    using wf assms(2) by (simp add: well_formed_def)
  have gone: "i \<notin> set (observers (action_bus (cleanup_activation a))) \<and>
      i \<notin> set (observers (notifier (state_obs (cleanup_activation a))))"
    by (rule cleanup_detaches [OF ok assms(3)])
  have lt: "i < next_observer c"
    using ok assms(3) by (simp add: activation_ok_def list_all_iff)
  have d: "detached i (cleanup c)"
    using gone lt assms(2) by (simp add: detached_def cleanup_def)
  have same: "action_calls_to i (cleanup c) = action_calls_to i c \<and>
      state_calls_to i (cleanup c) = state_calls_to i c"
    using assms(2)
    by (simp add: cleanup_def cleanup_activation_def action_calls_to_def state_calls_to_def
        received_def fold_unsubscribe_observers)
  show ?thesis
    using gone assms(2) detached_run [OF d, of P later] same by (simp add: cleanup_def)
qed

theorem C7_disposal_witness:
  "action_calls_to 0 (host_run counter_props
      [Mount two_epics, Invoke ''increment'' [], Render, Publication, Render,
       Cleanup, Push_action \<lparr>type = Defined ''increment'', payload = Undefined\<rparr>,
       Mount two_epics, Invoke ''increment'' [], Render, Publication]
      (first_render counter_props))
     = [(\<lparr>type = Defined ''increment'', payload = Undefined\<rparr>, Defined 1)] \<and>
   state_calls_to 0 (host_run counter_props
      [Mount two_epics, Invoke ''increment'' [], Render, Publication, Render,
       Cleanup, Push_action \<lparr>type = Defined ''increment'', payload = Undefined\<rparr>,
       Mount two_epics, Invoke ''increment'' [], Render, Publication]
      (first_render counter_props))
     = [Defined 0, Defined 1]"
  using C7_disposal [OF refl, where P = counter_props
      and history = "[Mount two_epics, Invoke ''increment'' [], Render, Publication, Render]"
      and a = "the (activation (host_run counter_props
          [Mount two_epics, Invoke ''increment'' [], Render, Publication, Render]
          (first_render counter_props)))"
      and i = 0
      and later = "[Push_action \<lparr>type = Defined ''increment'', payload = Undefined\<rparr>,
          Mount two_epics, Invoke ''increment'' [], Render, Publication]"]
  by (simp add: eval_defs)


end
